theory Spec2Isabelle
  imports Complex_Main "HOL-Library.Monad_Syntax" "HOL-Library.Multiset"
begin

section \<open>Python values and exceptions\<close>

text \<open>
  The module \<^verbatim>\<open>moviepy/tools.py\<close> holds three utilities: \<^verbatim>\<open>cvsecs\<close> (time
  conversion), \<^verbatim>\<open>subprocess_call\<close> (running an external command) and
  \<^verbatim>\<open>find_extension\<close> over the table \<^verbatim>\<open>extensions_dict\<close>.

  Exceptions are values: a function that can raise returns \<open>error + 'a\<close>, with
  \<open>Inl\<close> for the exception that leaves the function.
\<close>

datatype error =
    IndexError
  | UnboundLocalError
  | ValueError
  | OverflowError
  | ZeroDivisionError
  | UnicodeDecodeError
  | FileNotFoundError
  | PermissionError
  | IOError "nat list"

text \<open>
  A Python number is an \<^verbatim>\<open>int\<close>, which has no bound, or a \<^verbatim>\<open>float\<close>. A float is
  modelled by the real it stands for: the rounding of float operations, and infinities
  and NaN, are outside the model. What is modelled is the conversion of an int to a
  float, which Python makes when the two meet in an operation, and which raises
  OverflowError when the int is beyond the range of a double: rounded to 53 bits it would
  reach \<open>2 ^ 1024\<close>, so the ints that convert are those below \<open>2 ^ 1024 - 2 ^ 970\<close>
  in absolute value.
\<close>

datatype pynum = PyInt int | PyFloat real

fun val :: "pynum \<Rightarrow> real" where
  "val (PyInt n) = of_int n"
| "val (PyFloat x) = x"

definition fits :: "int \<Rightarrow> bool" where
  "fits n = (\<bar>n\<bar> < 2 ^ 1024 - 2 ^ 970)"

definition float_of_int :: "int \<Rightarrow> error + real" where
  "float_of_int n = (if fits n then Inr (of_int n) else Inl OverflowError)"

text \<open>An exception raised by the first step leaves the function; otherwise go on.\<close>

fun andthen :: "error + 'a \<Rightarrow> ('a \<Rightarrow> error + 'b) \<Rightarrow> error + 'b" where
  "andthen (Inl e) k = Inl e"
| "andthen (Inr x) k = k x"

text \<open>\<^verbatim>\<open>a * b\<close> and \<^verbatim>\<open>a + b\<close>: exact on two ints, on floats after conversion.\<close>

fun py_mul :: "pynum \<Rightarrow> pynum \<Rightarrow> error + pynum" where
  "py_mul (PyInt a) (PyInt b) = Inr (PyInt (a * b))"
| "py_mul (PyInt a) (PyFloat y) = andthen (float_of_int a) (\<lambda>x. Inr (PyFloat (x * y)))"
| "py_mul (PyFloat x) (PyInt b) = andthen (float_of_int b) (\<lambda>y. Inr (PyFloat (x * y)))"
| "py_mul (PyFloat x) (PyFloat y) = Inr (PyFloat (x * y))"

fun py_add :: "pynum \<Rightarrow> pynum \<Rightarrow> error + pynum" where
  "py_add (PyInt a) (PyInt b) = Inr (PyInt (a + b))"
| "py_add (PyInt a) (PyFloat y) = andthen (float_of_int a) (\<lambda>x. Inr (PyFloat (x + y)))"
| "py_add (PyFloat x) (PyInt b) = andthen (float_of_int b) (\<lambda>y. Inr (PyFloat (x + y)))"
| "py_add (PyFloat x) (PyFloat y) = Inr (PyFloat (x + y))"

text \<open>\<^verbatim>\<open>x / n\<close> for a float \<^verbatim>\<open>x\<close> and an int \<^verbatim>\<open>n\<close>.\<close>

definition py_truediv :: "real \<Rightarrow> int \<Rightarrow> error + real" where
  "py_truediv x n =
     andthen (float_of_int n)
       (\<lambda>d. if d = 0 then Inl ZeroDivisionError else Inr (x / d))"

text \<open>
  The argument of \<^verbatim>\<open>cvsecs\<close>. Python decides by the dynamic type of \<^verbatim>\<open>time\<close>:
  a string, a tuple, or anything else; the components of a tuple are numbers. A string
  is a list of \<open>char\<close>, and \<^verbatim>\<open>\d\<close> is one of the ten ASCII digits. The result is given
  by its value, a real, whether Python returns an int or a float.
\<close>

datatype time =
    Str string
  | Tuple "pynum list"
  | Num real

fun is_string :: "time \<Rightarrow> bool" where
  "is_string (Str s) = True"
| "is_string t = False"

fun is_tuple :: "time \<Rightarrow> bool" where
  "is_tuple (Tuple xs) = True"
| "is_tuple t = False"

section \<open>The regular expression of cvsecs\<close>

text \<open>
  \<^verbatim>\<open>expr = r"(\d+):(\d+):(\d+)[,|.](\d+)"\<close>. Inside the brackets \<^verbatim>\<open>|\<close> is an ordinary
  character, so the class of the source has three members: comma, bar and dot. The
  matcher takes the class as a parameter, so that the grammar with the class \<^verbatim>\<open>[.,]\<close>,
  the two separators that the docstring of cvsecs names, can be compared with it.
\<close>

definition is_digit :: "char \<Rightarrow> bool" where
  "is_digit c = (c \<in> set ''0123456789'')"

definition expr_seps :: string where
  "expr_seps = '',|.''"

text \<open>
  \<^verbatim>\<open>\d+\<close>: the longest non-empty run of digits. It is greedy, and in \<^verbatim>\<open>expr\<close> every
  \<^verbatim>\<open>\d+\<close> is followed by a character that is not a digit (or by the end of the
  pattern), so giving back digits never turns a failure into a match: the longest run is
  the only candidate the backtracking matcher can succeed with.
\<close>

definition digits1 :: "string \<Rightarrow> (string \<times> string) option" where
  "digits1 s =
     (if takeWhile is_digit s = [] then None
      else Some (takeWhile is_digit s, dropWhile is_digit s))"

text \<open>One character out of a class (a literal is the class with one member).\<close>

definition one_of :: "string \<Rightarrow> string \<Rightarrow> string option" where
  "one_of cls s = (case s of [] \<Rightarrow> None | c # r \<Rightarrow> if c \<in> set cls then Some r else None)"

type_synonym groups = "string \<times> string \<times> string \<times> string"

text \<open>A match of the pattern that starts at the head of \<open>s\<close>: the groups and what is left.\<close>

definition match_at :: "string \<Rightarrow> string \<Rightarrow> (groups \<times> string) option" where
  "match_at seps s =
     do {
       (h, r1) \<leftarrow> digits1 s;
       r2 \<leftarrow> one_of '':'' r1;
       (m, r3) \<leftarrow> digits1 r2;
       r4 \<leftarrow> one_of '':'' r3;
       (sec, r5) \<leftarrow> digits1 r4;
       r6 \<leftarrow> one_of seps r5;
       (f, r7) \<leftarrow> digits1 r6;
       Some ((h, m, sec, f), r7)
     }"

text \<open>
  \<^verbatim>\<open>re.findall(expr, time)\<close>: the groups of every match, scanning from the left; after
  a match the scan goes on where the match ended, otherwise one character further.
\<close>

function findall :: "string \<Rightarrow> string \<Rightarrow> groups list" where
  "findall seps s =
     (case match_at seps s of
        Some (g, r) \<Rightarrow> g # findall seps r
      | None \<Rightarrow> (case s of [] \<Rightarrow> [] | c # t \<Rightarrow> findall seps t))"
  by pat_completeness auto
termination
proof (relation "measure (\<lambda>(seps, s). length s)", goal_cases)
  case 1
  show ?case by simp
next
  case 2
  then show ?case by simp
next
  case prems: 3
  have dig: "length v < length u" if "digits1 u = Some (d, v)" for u d v
  proof -
    from that have v: "v = dropWhile is_digit u" and ne: "0 < length (takeWhile is_digit u)"
      by (auto simp: digits1_def split: if_splits)
    have "length (takeWhile is_digit u) + length (dropWhile is_digit u) = length u"
      by (metis length_append takeWhile_dropWhile_id)
    with ne show ?thesis unfolding v by linarith
  qed
  have one: "length v < length u" if "one_of cls u = Some v" for cls u v
    using that by (auto simp: one_of_def split: list.splits if_splits)
  have "length (snd p) < length s" if "match_at seps s = Some p" for seps s p
    using that unfolding match_at_def
    by (auto simp: bind_eq_Some_conv dest!: dig one)
  from this prems show ?case by fastforce
qed

declare findall.simps [simp del]

section \<open>cvsecs\<close>

text \<open>
  \<^verbatim>\<open>int(s)\<close> and \<^verbatim>\<open>float(s)\<close> on a run of digits: the number it writes in base ten.
  \<^verbatim>\<open>float\<close> gives infinity on a run that writes a number beyond the doubles, which
  takes more than 308 digits; cvsecs uses the float of the fraction only, and divides it
  by \<^verbatim>\<open>10**len\<close> of the same run, which then raises, so no infinity reaches a result.
  \<^verbatim>\<open>int\<close> parses a run of any length (Python 3.11 and later stop at 4300 digits with
  ValueError unless the limit is lifted; runs that long are beyond every bound used
  below).
\<close>

definition digit_val :: "char \<Rightarrow> int" where
  "digit_val c = of_char c - 48"

definition py_int :: "string \<Rightarrow> int" where
  "py_int s = foldl (\<lambda>a c. 10 * a + digit_val c) 0 s"

definition py_float :: "string \<Rightarrow> real" where
  "py_float s = of_int (py_int s)"

text \<open>\<^verbatim>\<open>if (',' not in time) and ('.' not in time): time = time + '.0'\<close>\<close>

definition amend :: "string \<Rightarrow> string" where
  "amend s = (if CHR '','' \<notin> set s \<and> CHR ''.'' \<notin> set s then s @ ''.0'' else s)"

text \<open>\<^verbatim>\<open>3600*hr + 60*mn + sec\<close>, the \<^verbatim>\<open>return\<close> of the tuple branch.\<close>

definition hms :: "pynum \<Rightarrow> pynum \<Rightarrow> pynum \<Rightarrow> error + real" where
  "hms hr mn sec =
     andthen (py_mul (PyInt 3600) hr) (\<lambda>a.
     andthen (py_mul (PyInt 60) mn) (\<lambda>b.
     andthen (py_add a b) (\<lambda>c.
     andthen (py_add c sec) (\<lambda>r. Inr (val r)))))"

text \<open>
  \<^verbatim>\<open>finds = re.findall(expr, time)[0]\<close> raises IndexError on the empty list. In the
  \<^verbatim>\<open>return\<close> of the string branch the three \<^verbatim>\<open>int\<close> terms are added exactly; the
  fraction divides a float by the int \<^verbatim>\<open>10**len(finds[3])\<close>, and the last sum adds an
  int to a float: both convert an int and can raise OverflowError. A tuple of a length
  other than 2 or 3 binds none of \<^verbatim>\<open>hr, mn, sec\<close>, and the \<^verbatim>\<open>return\<close> then raises
  UnboundLocalError.
\<close>

fun cvsecs :: "time \<Rightarrow> error + real" where
  "cvsecs (Str s) =
     (case findall expr_seps (amend s) of
        [] \<Rightarrow> Inl IndexError
      | (h, m, sec, f) # _ \<Rightarrow>
          andthen (py_truediv (py_float f) (10 ^ length f)) (\<lambda>q.
          andthen (py_add (PyInt (3600 * py_int h + 60 * py_int m + py_int sec)) (PyFloat q))
            (\<lambda>r. Inr (val r))))"
| "cvsecs (Tuple xs) =
     (case xs of
        [hr, mn, sec] \<Rightarrow> hms hr mn sec
      | [mn, sec] \<Rightarrow> hms (PyInt 0) mn sec
      | _ \<Rightarrow> Inl UnboundLocalError)"
| "cvsecs (Num x) = Inr x"

section \<open>subprocess_call\<close>

text \<open>
  \<^verbatim>\<open>err.decode('utf8')\<close>: the strict UTF-8 decoder of Python 3. The bytes are
  \<open>char\<close>s (eight bits each), the text is the list of its code points, since a decoded
  character need not fit a \<open>char\<close>. A byte sequence that is not well-formed (a
  stray continuation byte, a lead byte \<^verbatim>\<open>C0\<close>, \<^verbatim>\<open>C1\<close> or above \<^verbatim>\<open>F4\<close>, a
  truncated or overlong sequence, a surrogate, a code point above \<^verbatim>\<open>10FFFF\<close>) makes
  \<^verbatim>\<open>decode\<close> raise UnicodeDecodeError: the result \<open>None\<close>.
\<close>

definition cont :: "nat \<Rightarrow> nat \<Rightarrow> nat \<Rightarrow> bool" where
  "cont lo hi b = (lo \<le> b \<and> b < hi)"

fun utf8 :: "nat list \<Rightarrow> nat list option" where
  "utf8 [] = Some []"
| "utf8 (b0 # bs) =
     (if b0 < 128 then map_option ((#) b0) (utf8 bs)
      else if 194 \<le> b0 \<and> b0 < 224 then
        (case bs of
           b1 # r \<Rightarrow>
             if cont 128 192 b1
             then map_option ((#) ((b0 - 192) * 64 + (b1 - 128))) (utf8 r)
             else None
         | _ \<Rightarrow> None)
      else if 224 \<le> b0 \<and> b0 < 240 then
        (case bs of
           b1 # b2 # r \<Rightarrow>
             if cont (if b0 = 224 then 160 else 128) (if b0 = 237 then 160 else 192) b1
                \<and> cont 128 192 b2
             then map_option
                    ((#) ((b0 - 224) * 4096 + (b1 - 128) * 64 + (b2 - 128))) (utf8 r)
             else None
         | _ \<Rightarrow> None)
      else if 240 \<le> b0 \<and> b0 < 245 then
        (case bs of
           b1 # b2 # b3 # r \<Rightarrow>
             if cont (if b0 = 240 then 144 else 128) (if b0 = 244 then 144 else 192) b1
                \<and> cont 128 192 b2 \<and> cont 128 192 b3
             then map_option
                    ((#) ((b0 - 240) * 262144 + (b1 - 128) * 4096 + (b2 - 128) * 64
                          + (b3 - 128))) (utf8 r)
             else None
         | _ \<Rightarrow> None)
      else None)"

definition decode_utf8 :: "string \<Rightarrow> error + nat list" where
  "decode_utf8 bs =
     (case utf8 (map of_char bs) of None \<Rightarrow> Inl UnicodeDecodeError | Some txt \<Rightarrow> Inr txt)"

text \<open>
  What the call does to the world is made explicit. The console is the list of the
  texts written to \<^verbatim>\<open>sys.stdout\<close>, in order. The child process is a parameter: given
  the command and the parameters of \<^verbatim>\<open>Popen\<close>, it ends with a return code and the
  bytes it wrote to its standard error, which is what \<^verbatim>\<open>proc.communicate()\<close> and
  \<^verbatim>\<open>proc.returncode\<close> give back; or the launch fails and \<^verbatim>\<open>Popen\<close> raises (a program
  that does not exist gives FileNotFoundError, one that may not be run PermissionError;
  in Python 3 both are subclasses of OSError, of which IOError is another name), and
  the exception leaves subprocess_call. Closing the pipe and deleting \<^verbatim>\<open>proc\<close> change
  nothing that the model holds.
\<close>

datatype stream = DEVNULL | PIPE

record popen_params =
  stdout :: stream
  stderr :: stream
  stdin :: stream
  creationflags :: "nat option"

record child =
  returncode :: int
  err :: string

type_synonym popen = "string list \<Rightarrow> popen_params \<Rightarrow> error + child"

fun join :: "string \<Rightarrow> string list \<Rightarrow> string" where
  "join sep [] = []"
| "join sep [x] = x"
| "join sep (x # y # ys) = x @ sep @ join sep (y # ys)"

definition verbose_print :: "bool \<Rightarrow> string \<Rightarrow> string list \<Rightarrow> string list" where
  "verbose_print verbose s console = (if verbose then console @ [s] else console)"

text \<open>
  The dictionary \<^verbatim>\<open>popen_params\<close>, with \<^verbatim>\<open>creationflags\<close> set when \<^verbatim>\<open>os.name\<close> is
  \<^verbatim>\<open>"nt"\<close>.
\<close>

definition popen_params_of :: "string \<Rightarrow> popen_params" where
  "popen_params_of os_name =
     \<lparr>stdout = DEVNULL, stderr = PIPE, stdin = DEVNULL,
      creationflags = (if os_name = ''nt'' then Some 0x08000000 else None)\<rparr>"

definition subprocess_call ::
  "string \<Rightarrow> popen \<Rightarrow> string list \<Rightarrow> bool \<Rightarrow> bool \<Rightarrow> string list \<times> (error + unit)" where
  "subprocess_call os_name Popen cmd verbose errorprint =
     (let console = verbose_print verbose
            (''\<newline>[MoviePy] Running:\<newline>>>> '' @ join '' '' cmd) []
      in case Popen cmd (popen_params_of os_name) of
           Inl e \<Rightarrow> (console, Inl e)
         | Inr proc \<Rightarrow>
             if returncode proc \<noteq> 0 then
               (let console = verbose_print errorprint
                      ''\<newline>[MoviePy] This command returned an error !'' console
                in case decode_utf8 (err proc) of
                     Inl e \<Rightarrow> (console, Inl e)
                   | Inr txt \<Rightarrow> (console, Inl (IOError txt)))
             else (verbose_print verbose ''\<newline>... command successful.\<newline>'' console,
                   Inr ()))"

section \<open>extensions_dict and find_extension\<close>

text \<open>
  A dictionary is the list of its items in iteration order, which for a Python dict is
  the order of insertion; assigning to a key that is present keeps its place. An entry
  always has a \<^verbatim>\<open>'type'\<close> and may have a \<^verbatim>\<open>'codec'\<close> list.
\<close>

record infos =
  type :: string
  codec :: "string list option"

fun dict_set :: "('k \<times> 'v) list \<Rightarrow> 'k \<Rightarrow> 'v \<Rightarrow> ('k \<times> 'v) list" where
  "dict_set [] k v = [(k, v)]"
| "dict_set ((k', v') # d) k v =
     (if k' = k then (k, v) # d else (k', v') # dict_set d k v)"

definition extensions_dict :: "(string \<times> infos) list" where
  "extensions_dict =
     foldl (\<lambda>d ext. dict_set d ext \<lparr>type = ''image'', codec = None\<rparr>)
       [(''mp4'',  \<lparr>type = ''video'', codec = Some [''libx264'', ''libmpeg4'']\<rparr>),
        (''ogv'',  \<lparr>type = ''video'', codec = Some [''libtheora'']\<rparr>),
        (''webm'', \<lparr>type = ''video'', codec = Some [''libvpx'']\<rparr>),
        (''avi'',  \<lparr>type = ''video'', codec = None\<rparr>),
        (''mov'',  \<lparr>type = ''video'', codec = None\<rparr>),
        (''ogg'',  \<lparr>type = ''audio'', codec = Some [''libvorbis'']\<rparr>),
        (''mp3'',  \<lparr>type = ''audio'', codec = Some [''libmp3lame'']\<rparr>),
        (''wav'',  \<lparr>type = ''audio'', codec = Some [''pcm_s16le'', ''pcm_s32le'']\<rparr>),
        (''m4a'',  \<lparr>type = ''audio'', codec = Some [''libfdk_aac'']\<rparr>)]
       [''jpg'', ''jpeg'', ''png'', ''bmp'', ''tiff'']"

text \<open>\<^verbatim>\<open>('codec' in infos) and codec in infos['codec']\<close>\<close>

definition has_codec :: "infos \<Rightarrow> string \<Rightarrow> bool" where
  "has_codec i c = (case codec i of None \<Rightarrow> False | Some cs \<Rightarrow> c \<in> set cs)"

text \<open>
  The loop of \<^verbatim>\<open>find_extension\<close> over the items of a dictionary: it returns at the
  first entry that has the codec, and \<^verbatim>\<open>raise ValueError\<close> follows the loop.
\<close>

fun find_extension_in :: "(string \<times> infos) list \<Rightarrow> string \<Rightarrow> error + string" where
  "find_extension_in [] c = Inl ValueError"
| "find_extension_in ((ext, i) # items) c =
     (if has_codec i c then Inr ext else find_extension_in items c)"

definition find_extension :: "string \<Rightarrow> error + string" where
  "find_extension c = find_extension_in extensions_dict c"

section \<open>Words of the specification\<close>

text \<open>
  The grammar of a timecode, stated without the matcher: a word is a timecode for a
  class of separators when it is four non-empty runs of digits, the first three joined by
  colons and the last set off by one separator; a string contains a timecode when some
  part of it is one. The specification has the class \<^verbatim>\<open>[.,]\<close>.
\<close>

definition spec_seps :: string where
  "spec_seps = ''.,''"

definition number :: "string \<Rightarrow> bool" where
  "number d = (d \<noteq> [] \<and> list_all is_digit d)"

definition timecode :: "string \<Rightarrow> string \<Rightarrow> bool" where
  "timecode seps w =
     (\<exists>h m sec c f. w = h @ '':'' @ m @ '':'' @ sec @ [c] @ f
        \<and> number h \<and> number m \<and> number sec \<and> number f \<and> c \<in> set seps)"

definition contains_timecode :: "string \<Rightarrow> string \<Rightarrow> bool" where
  "contains_timecode seps s = (\<exists>pre w post. s = pre @ w @ post \<and> timecode seps w)"

text \<open>The codec names an item of the registry lists (none without a \<^verbatim>\<open>'codec'\<close> key).\<close>

definition codecs_of :: "string \<times> infos \<Rightarrow> string list" where
  "codecs_of x = (case codec (snd x) of None \<Rightarrow> [] | Some cs \<Rightarrow> cs)"

text \<open>
  A launch that succeeds, with a child process that ends the same way whatever the
  command and the parameters.
\<close>

fun ends_with :: "child \<Rightarrow> popen" where
  "ends_with c cmd params = Inr c"

text \<open>A tuple component is small when it is a float or an int of at most 300 digits.\<close>

fun small :: "pynum \<Rightarrow> bool" where
  "small (PyInt n) = (\<bar>n\<bar> \<le> 10 ^ 300)"
| "small (PyFloat x) = True"

text \<open>
  What the \<^verbatim>\<open>return\<close> of the string branch makes of the groups of a match: the
  weighted sum, or OverflowError when \<^verbatim>\<open>10**len(F)\<close> or the sum of the three int terms
  is beyond the range of a float.
\<close>

definition seconds_of :: "groups \<Rightarrow> error + real" where
  "seconds_of g =
     (case g of (h, m, sec, f) \<Rightarrow>
        if fits (10 ^ length f) \<and> fits (3600 * py_int h + 60 * py_int m + py_int sec)
        then Inr (of_int (3600 * py_int h + 60 * py_int m + py_int sec)
                  + py_float f / of_int (10 ^ length f))
        else Inl OverflowError)"

section \<open>The matcher against the grammar\<close>

text \<open>
  What the matcher accepts at the head of a string is exactly a timecode word, and the
  scan of \<open>findall\<close> is empty exactly when the string contains no timecode. Both need
  the separators to be no digits, which holds for the class of the source and for the
  one of the specification.
\<close>

lemma digits1_shorter: "digits1 s = Some (d, r) \<Longrightarrow> length r < length s"
proof -
  assume a: "digits1 s = Some (d, r)"
  then have v: "r = dropWhile is_digit s" and ne: "0 < length (takeWhile is_digit s)"
    by (auto simp: digits1_def split: if_splits)
  have "length (takeWhile is_digit s) + length (dropWhile is_digit s) = length s"
    by (metis length_append takeWhile_dropWhile_id)
  with ne show ?thesis unfolding v by linarith
qed

lemma one_of_shorter: "one_of cls s = Some r \<Longrightarrow> length r < length s"
  by (auto simp: one_of_def split: list.splits if_splits)

lemma match_at_shorter: "match_at seps s = Some (g, r) \<Longrightarrow> length r < length s"
  unfolding match_at_def
  by (auto simp: bind_eq_Some_conv dest!: digits1_shorter one_of_shorter)

lemma digits1_append:
  assumes "number d"
  shows "digits1 (d @ r) = Some (d @ takeWhile is_digit r, dropWhile is_digit r)"
proof -
  from assms have all: "\<forall>c\<in>set d. is_digit c" and ne: "d \<noteq> []"
    by (auto simp: number_def list_all_iff)
  then have "takeWhile is_digit (d @ r) = d @ takeWhile is_digit r"
    and "dropWhile is_digit (d @ r) = dropWhile is_digit r"
    by (simp_all add: takeWhile_append2 dropWhile_append2)
  with ne show ?thesis by (simp add: digits1_def)
qed

lemma digits1_stop:
  assumes "number d" "\<not> is_digit c"
  shows "digits1 (d @ c # r) = Some (d, c # r)"
  using digits1_append [OF assms(1), of "c # r"] assms(2) by simp

lemma digits1_end:
  assumes "number d"
  shows "digits1 d = Some (d, [])"
  using digits1_append [OF assms, of "[]"] by simp

lemma digits1_Some:
  assumes "digits1 s = Some (d, r)"
  shows "s = d @ r \<and> number d"
  using assms
  by (auto simp: digits1_def number_def list_all_iff split: if_splits dest: set_takeWhileD)

lemma one_of_Some: "one_of cls s = Some r \<longleftrightarrow> (\<exists>c. s = c # r \<and> c \<in> set cls)"
  by (auto simp: one_of_def split: list.splits)

lemma colon_not_digit: "\<not> is_digit CHR '':''"
  by (simp add: is_digit_def)

lemma sep_not_digit: "c \<in> set expr_seps \<Longrightarrow> \<not> is_digit c"
  by (auto simp: is_digit_def expr_seps_def)

lemma match_at_Some:
  assumes "match_at seps s = Some ((h, m, sec, f), r)"
  shows "\<exists>c. s = h @ '':'' @ m @ '':'' @ sec @ [c] @ f @ r \<and> c \<in> set seps
           \<and> number h \<and> number m \<and> number sec \<and> number f"
  using assms unfolding match_at_def
  by (auto simp: bind_eq_Some_conv one_of_Some dest!: digits1_Some)

lemma match_at_timecode:
  assumes "number h" "number m" "number sec" "number f" "c \<in> set seps" "\<not> is_digit c"
  shows "match_at seps (h @ '':'' @ m @ '':'' @ sec @ [c] @ f @ post)
         = Some ((h, m, sec, f @ takeWhile is_digit post), dropWhile is_digit post)"
  using assms
  by (simp add: match_at_def digits1_stop digits1_append colon_not_digit one_of_def)


lemma digits1_set: "digits1 s = Some (d, r) \<Longrightarrow> set r \<subseteq> set s"
  by (auto simp: digits1_def split: if_splits dest: set_dropWhileD)

lemma one_of_set: "one_of cls s = Some r \<Longrightarrow> set r \<subseteq> set s"
  by (auto simp: one_of_def split: list.splits if_splits)

lemma match_at_set: "match_at seps s = Some (g, r) \<Longrightarrow> set r \<subseteq> set s"
  unfolding match_at_def
  by (clarsimp simp: bind_eq_Some_conv dest!: digits1_set one_of_set) blast

lemma one_of_no_bar:
  "CHR ''|'' \<notin> set s \<Longrightarrow> one_of expr_seps s = one_of spec_seps s"
  by (auto simp: one_of_def expr_seps_def spec_seps_def split: list.splits)

lemma match_at_no_bar:
  assumes "CHR ''|'' \<notin> set s"
  shows "match_at expr_seps s = match_at spec_seps s"
proof -
  have "one_of expr_seps r5 = one_of spec_seps r5"
    if "digits1 s = Some (h, r1)" "one_of '':'' r1 = Some r2" "digits1 r2 = Some (m, r3)"
      "one_of '':'' r3 = Some r4" "digits1 r4 = Some (sec, r5)"
    for h r1 r2 m r3 r4 sec r5
  proof -
    from that have "set r5 \<subseteq> set s"
      by (meson digits1_set one_of_set subset_trans)
    with assms show ?thesis by (intro one_of_no_bar) auto
  qed
  then show ?thesis
    unfolding match_at_def
    by (auto intro!: Option.bind_cong simp: split_beta)
qed

lemma findall_no_bar:
  "CHR ''|'' \<notin> set s \<Longrightarrow> findall expr_seps s = findall spec_seps s"
proof (induction "length s" arbitrary: s rule: less_induct)
  case less
  show ?case
  proof (cases "match_at spec_seps s")
    case None
    with less.prems have e: "match_at expr_seps s = None" by (simp add: match_at_no_bar)
    show ?thesis
    proof (cases s)
      case Nil
      with None e show ?thesis by (simp add: findall.simps)
    next
      case (Cons c t)
      with less.prems have "findall expr_seps t = findall spec_seps t"
        by (intro less.hyps) auto
      with None e Cons show ?thesis
        by (simp add: findall.simps [of _ "c # t"])
    qed
  next
    case (Some p)
    obtain g r where p: "p = (g, r)" by (cases p)
    from Some p less.prems have e: "match_at expr_seps s = Some (g, r)"
      by (simp add: match_at_no_bar)
    from e have "length r < length s" "set r \<subseteq> set s"
      by (auto dest: match_at_set) (use e in \<open>simp add: match_at_shorter\<close>)
    with less.prems have "findall expr_seps r = findall spec_seps r"
      by (intro less.hyps) auto
    with Some p e show ?thesis
      by (simp add: findall.simps [of _ s])
  qed
qed


lemma findall_Nil: "findall seps [] = []"
  by (simp add: findall.simps match_at_def digits1_def)

lemma findall_match:
  "match_at seps s = Some (g, r) \<Longrightarrow> findall seps s = g # findall seps r"
  by (simp add: findall.simps [of _ s])

lemma findall_skip:
  "match_at seps (c # t) = None \<Longrightarrow> findall seps (c # t) = findall seps t"
  by (simp add: findall.simps [of _ "c # t"])

lemma timecode_match:
  assumes "timecode seps w" "\<forall>c\<in>set seps. \<not> is_digit c"
  shows "match_at seps (w @ post) \<noteq> None"
proof -
  from assms(1) obtain h m sec c f where w: "w = h @ '':'' @ m @ '':'' @ sec @ [c] @ f"
    and n: "number h" "number m" "number sec" "number f" and c: "c \<in> set seps"
    unfolding timecode_def by blast
  from c assms(2) have "\<not> is_digit c" by blast
  from match_at_timecode [OF n c this, of post] show ?thesis by (simp add: w)
qed

lemma contains_findall:
  assumes "\<forall>c\<in>set seps. \<not> is_digit c" "timecode seps w"
  shows "findall seps (pre @ w @ post) \<noteq> []"
proof (induction pre)
  case Nil
  from timecode_match [OF assms(2,1), of post]
  obtain g r where "match_at seps (w @ post) = Some (g, r)" by auto
  then show ?case by (simp add: findall_match)
next
  case (Cons a pre)
  show ?case
  proof (cases "match_at seps (a # pre @ w @ post)")
    case None
    with Cons show ?thesis by (simp add: findall_skip)
  next
    case (Some p)
    then show ?thesis by (cases p) (simp add: findall_match)
  qed
qed

lemma findall_contains:
  "findall seps s \<noteq> [] \<Longrightarrow> contains_timecode seps s"
proof (induction s)
  case Nil
  then show ?case by (simp add: findall_Nil)
next
  case (Cons a s)
  show ?case
  proof (cases "match_at seps (a # s)")
    case None
    with Cons.prems have "findall seps s \<noteq> []" by (simp add: findall_skip)
    then obtain pre w post where "s = pre @ w @ post" "timecode seps w"
      using Cons.IH unfolding contains_timecode_def by blast
    then have "a # s = (a # pre) @ w @ post \<and> timecode seps w" by simp
    then show ?thesis unfolding contains_timecode_def by blast
  next
    case (Some p)
    obtain h m sec f r where p: "p = ((h, m, sec, f), r)" by (cases p) auto
    from match_at_Some [OF Some [unfolded p]] obtain c where
      s: "a # s = h @ '':'' @ m @ '':'' @ sec @ [c] @ f @ r" and "c \<in> set seps"
      and "number h" "number m" "number sec" "number f" by blast
    then have "timecode seps (h @ '':'' @ m @ '':'' @ sec @ [c] @ f)"
      unfolding timecode_def by blast
    moreover from s have "a # s = [] @ (h @ '':'' @ m @ '':'' @ sec @ [c] @ f) @ r" by simp
    ultimately show ?thesis unfolding contains_timecode_def by blast
  qed
qed

lemma findall_Nil_iff:
  assumes "\<forall>c\<in>set seps. \<not> is_digit c"
  shows "findall seps s = [] \<longleftrightarrow> \<not> contains_timecode seps s"
  using contains_findall [OF assms] findall_contains [of seps s]
  unfolding contains_timecode_def by blast

lemma findall_numbers:
  "(h, m, sec, f) \<in> set (findall seps s) \<Longrightarrow> number h \<and> number m \<and> number sec \<and> number f"
proof (induction "length s" arbitrary: s rule: less_induct)
  case less
  show ?case
  proof (cases "match_at seps s")
    case None
    show ?thesis
    proof (cases s)
      case Nil
      with less.prems show ?thesis by (simp add: findall_Nil)
    next
      case (Cons c t)
      with None less.prems have "(h, m, sec, f) \<in> set (findall seps t)"
        by (simp add: findall_skip)
      with Cons show ?thesis by (intro less.hyps [of t]) auto
    qed
  next
    case (Some p)
    obtain g r where p: "p = (g, r)" by (cases p)
    with Some have ma: "match_at seps s = Some (g, r)" by simp
    with less.prems consider "g = (h, m, sec, f)" | "(h, m, sec, f) \<in> set (findall seps r)"
      by (auto simp: findall_match)
    then show ?thesis
    proof cases
      case 1
      with ma show ?thesis by (auto dest: match_at_Some)
    next
      case 2
      with ma show ?thesis by (intro less.hyps [of r]) (auto dest: match_at_shorter)
    qed
  qed
qed

lemma digit_val_nonneg: "is_digit c \<Longrightarrow> 0 \<le> digit_val c"
  by (auto simp: is_digit_def digit_val_def)

lemma foldl_digits_nonneg:
  "list_all is_digit s \<Longrightarrow> 0 \<le> a \<Longrightarrow> 0 \<le> foldl (\<lambda>a c. 10 * a + digit_val c) a s"
  by (induction s arbitrary: a) (auto simp: digit_val_nonneg)

lemma py_int_nonneg: "number s \<Longrightarrow> 0 \<le> py_int s"
  by (simp add: py_int_def number_def foldl_digits_nonneg)

section \<open>The range of a float\<close>

text \<open>
  A power of ten converts to a float up to \<open>10 ^ 308\<close> and no further; the sum of the
  three int terms converts when each field has at most 302 digits.
\<close>

lemma fits_pow:
  assumes "n \<le> 308"
  shows "fits (10 ^ n)"
proof -
  have "(10::int) ^ n \<le> 10 ^ 308"
    using assms by (intro power_increasing) simp_all
  moreover have "(10::int) ^ 308 < 2 ^ 1024 - 2 ^ 970" by simp
  ultimately show ?thesis unfolding fits_def by simp
qed

lemma not_fits_pow: "309 \<le> n \<Longrightarrow> \<not> fits (10 ^ n)"
proof -
  assume "309 \<le> n"
  then have "(10::int) ^ 309 \<le> 10 ^ n"
    by (intro power_increasing) simp_all
  moreover have "\<not> (10::int) ^ 309 < 2 ^ 1024 - 2 ^ 970" by simp
  ultimately show ?thesis unfolding fits_def by simp
qed

lemma fits_sum:
  assumes "\<bar>a\<bar> \<le> 10 ^ 302" "\<bar>b\<bar> \<le> 10 ^ 302" "\<bar>c\<bar> \<le> 10 ^ 302"
  shows "fits (3600 * a + 60 * b + c)" "fits (3600 * a + 60 * b)" "fits (3600 * a)"
    "fits (60 * b)" "fits c"
proof -
  define P :: int where "P = 10 ^ 302"
  have big: "3661 * P < 2 ^ 1024 - 2 ^ 970" and P: "0 < P"
    unfolding P_def by simp_all
  note b = assms [folded P_def]
  from b big P show "fits (3600 * a + 60 * b + c)" "fits (3600 * a + 60 * b)"
    "fits (3600 * a)" "fits (60 * b)" "fits c"
    unfolding fits_def by linarith+
qed

lemma small_302: "small (PyInt n) \<Longrightarrow> \<bar>n\<bar> \<le> 10 ^ 302"
proof -
  assume "small (PyInt n)"
  then have "\<bar>n\<bar> \<le> 10 ^ 300" by simp
  also have "(10::int) ^ 300 \<le> 10 ^ 302" by (intro power_increasing) simp_all
  finally show ?thesis .
qed

lemma digit_val_le: "is_digit c \<Longrightarrow> digit_val c \<le> 9"
  by (auto simp: is_digit_def digit_val_def)

lemma foldl_digits_less:
  "list_all is_digit s \<Longrightarrow> 0 \<le> a
     \<Longrightarrow> foldl (\<lambda>a c. 10 * a + digit_val c) a s < (a + 1) * 10 ^ length s"
proof (induction s arbitrary: a)
  case Nil
  then show ?case by simp
next
  case (Cons c s)
  from Cons.prems have c: "0 \<le> digit_val c" "digit_val c \<le> 9" and s: "list_all is_digit s"
    by (simp_all add: digit_val_nonneg digit_val_le)
  with Cons.prems have "foldl (\<lambda>a c. 10 * a + digit_val c) (10 * a + digit_val c) s
      < (10 * a + digit_val c + 1) * 10 ^ length s"
    by (intro Cons.IH) simp_all
  also from c have "\<dots> \<le> (10 * a + 10) * 10 ^ length s"
    by (intro mult_right_mono) simp_all
  finally show ?case by (simp add: algebra_simps)
qed

lemma py_int_less: "number s \<Longrightarrow> py_int s < 10 ^ length s"
  using foldl_digits_less [of s 0] by (simp add: py_int_def number_def)

lemma py_int_302:
  assumes "number s" "length s \<le> 302"
  shows "\<bar>py_int s\<bar> \<le> 10 ^ 302"
proof -
  from assms(1) have "0 \<le> py_int s" "py_int s < 10 ^ length s"
    by (simp_all add: py_int_nonneg py_int_less)
  moreover from assms(2) have "(10::int) ^ length s \<le> 10 ^ 302"
    by (intro power_increasing) simp_all
  ultimately show ?thesis by simp
qed

lemma fits_fields:
  assumes "number h" "number m" "number sec"
    "length h \<le> 302" "length m \<le> 302" "length sec \<le> 302"
  shows "fits (3600 * py_int h + 60 * py_int m + py_int sec)"
  using assms by (intro fits_sum py_int_302)

lemma foldl_zeros:
  "foldl (\<lambda>a c. 10 * a + digit_val c) a (replicate n (CHR ''0'')) = a * 10 ^ n"
  by (induction n arbitrary: a) (simp_all add: digit_val_def)

lemma py_int_zeros: "py_int (s @ replicate n (CHR ''0'')) = py_int s * 10 ^ n"
  by (simp add: py_int_def foldl_zeros)

lemma number_append: "number s \<Longrightarrow> is_digit c \<Longrightarrow> number (s @ replicate n c)"
  by (auto simp: number_def list_all_iff)

declare small.simps(1) [simp del]

lemma small_int: "\<bar>n\<bar> \<le> 1000 \<Longrightarrow> small (PyInt n)"
proof -
  assume "\<bar>n\<bar> \<le> 1000"
  moreover have "(1000::int) = 10 ^ 3" by simp
  moreover have "(10::int) ^ 3 \<le> 10 ^ 300" by (intro power_increasing) simp_all
  ultimately show ?thesis unfolding small.simps by linarith
qed

lemma fits_small:
  assumes "small (PyInt a)"
  shows "fits a" "fits (3600 * a)" "fits (60 * a)"
    and "small (PyInt b) \<Longrightarrow> fits (3600 * a + 60 * b)"
proof -
  have z: "\<bar>0::int\<bar> \<le> 10 ^ 302" by simp
  note a = small_302 [OF assms]
  from fits_sum(5) [OF z z a] show "fits a" .
  from fits_sum(3) [OF a z z] show "fits (3600 * a)" .
  from fits_sum(4) [OF z a z] show "fits (60 * a)" .
  assume "small (PyInt b)"
  from fits_sum(2) [OF a small_302 [OF this] z] show "fits (3600 * a + 60 * b)" .
qed

lemma float_of_int_fits: "fits n \<Longrightarrow> float_of_int n = Inr (of_int n)"
  by (simp add: float_of_int_def)

lemma fits_consts: "fits 0" "fits 60" "fits 3600"
  by (simp_all add: fits_def)

section \<open>cvsecs on strings\<close>

lemma seps_not_digit:
  "\<forall>c\<in>set expr_seps. \<not> is_digit c" "\<forall>c\<in>set spec_seps. \<not> is_digit c"
  by (simp_all add: expr_seps_def spec_seps_def is_digit_def)

lemma amend_no_bar: "CHR ''|'' \<notin> set s \<Longrightarrow> CHR ''|'' \<notin> set (amend s)"
  by (simp add: amend_def)

lemma spec_seps_subset: "c \<in> set spec_seps \<Longrightarrow> c \<in> set expr_seps"
  by (auto simp: spec_seps_def expr_seps_def)

lemma contains_spec_expr:
  "contains_timecode spec_seps s \<Longrightarrow> contains_timecode expr_seps s"
proof -
  assume "contains_timecode spec_seps s"
  then obtain pre w post where s: "s = pre @ w @ post" and w: "timecode spec_seps w"
    unfolding contains_timecode_def by blast
  from w have "timecode expr_seps w"
    unfolding timecode_def using spec_seps_subset by blast
  with s show ?thesis unfolding contains_timecode_def by blast
qed

lemma amend_sep:
  "c \<in> set spec_seps \<Longrightarrow> c \<in> set s \<Longrightarrow> amend s = s"
  by (auto simp: amend_def spec_seps_def)

lemma length_amend: "length (amend s) \<le> length s + 2"
  by (simp add: amend_def)

lemma cvsecs_groups:
  "cvsecs (Str s) =
     (case findall expr_seps (amend s) of [] \<Rightarrow> Inl IndexError | g # _ \<Rightarrow> seconds_of g)"
  by (auto simp: seconds_of_def py_truediv_def float_of_int_def split: list.splits)

declare cvsecs.simps(1) [simp del]

lemma seconds_of_not_IndexError: "seconds_of g \<noteq> Inl IndexError"
  by (auto simp: seconds_of_def split: prod.splits)

lemma cvsecs_IndexError_iff:
  "cvsecs (Str s) = Inl IndexError \<longleftrightarrow> findall expr_seps (amend s) = []"
  by (simp add: cvsecs_groups seconds_of_not_IndexError split: list.splits)

lemma findall_lengths:
  "(h, m, sec, f) \<in> set (findall seps s)
     \<Longrightarrow> length h \<le> length s \<and> length m \<le> length s \<and> length sec \<le> length s
         \<and> length f \<le> length s"
proof (induction "length s" arbitrary: s rule: less_induct)
  case less
  show ?case
  proof (cases "match_at seps s")
    case None
    show ?thesis
    proof (cases s)
      case Nil
      with less.prems show ?thesis by (simp add: findall_Nil)
    next
      case (Cons c t)
      with None less.prems have "(h, m, sec, f) \<in> set (findall seps t)"
        by (simp add: findall_skip)
      with Cons less.hyps [of t] show ?thesis by fastforce
    qed
  next
    case (Some p)
    obtain g r where p: "p = (g, r)" by (cases p)
    with Some have ma: "match_at seps s = Some (g, r)" by simp
    with less.prems consider "g = (h, m, sec, f)" | "(h, m, sec, f) \<in> set (findall seps r)"
      by (auto simp: findall_match)
    then show ?thesis
    proof cases
      case 1
      with ma obtain c where "s = h @ '':'' @ m @ '':'' @ sec @ [c] @ f @ r"
        by (auto dest: match_at_Some)
      then have "length s = length h + length m + length sec + length f + length r + 3"
        by simp
      then show ?thesis by simp
    next
      case 2
      from ma have "length r < length s" by (rule match_at_shorter)
      with 2 less.hyps [of r] show ?thesis by fastforce
    qed
  qed
qed

lemma seconds_of_nonneg:
  assumes "number h" "number m" "number sec" "number f"
    and "seconds_of (h, m, sec, f) = Inr v"
  shows "0 \<le> v"
proof -
  from assms(5) have v: "v = of_int (3600 * py_int h + 60 * py_int m + py_int sec)
               + py_float f / of_int (10 ^ length f)"
    by (simp add: seconds_of_def split: if_splits)
  from assms(1-4) have "0 \<le> py_int h" "0 \<le> py_int m" "0 \<le> py_int sec" "0 \<le> py_int f"
    by (simp_all add: py_int_nonneg)
  then have "0 \<le> 3600 * py_int h + 60 * py_int m + py_int sec" and "0 \<le> py_float f"
    by (simp_all add: py_float_def)
  then have "(0::real) \<le> of_int (3600 * py_int h + 60 * py_int m + py_int sec)"
    and "0 \<le> py_float f / of_int (10 ^ length f)"
    by (simp_all only: of_int_0_le_iff) simp
  with v show ?thesis by linarith
qed

lemma seconds_of_fits:
  assumes "number h" "number m" "number sec"
    "length h \<le> 302" "length m \<le> 302" "length sec \<le> 302" "length f \<le> 308"
  shows "seconds_of (h, m, sec, f) =
     Inr (of_int (3600 * py_int h + 60 * py_int m + py_int sec)
          + py_float f / of_int (10 ^ length f))"
  using fits_fields [OF assms(1-6)] fits_pow [OF assms(7)]
  by (simp add: seconds_of_def)

lemma cvsecs_value_nonneg:
  assumes "cvsecs (Str s) = Inr v"
  shows "0 \<le> v"
proof -
  from assms obtain h m sec f rest where
    g: "findall expr_seps (amend s) = (h, m, sec, f) # rest"
    and v: "seconds_of (h, m, sec, f) = Inr v"
    by (auto simp: cvsecs_groups split: list.splits)
  from g have "(h, m, sec, f) \<in> set (findall expr_seps (amend s))" by simp
  then have "number h" "number m" "number sec" "number f"
    by (auto dest: findall_numbers)
  then show ?thesis using v by (rule seconds_of_nonneg)
qed

lemma cvsecs_returns:
  assumes "contains_timecode expr_seps (amend s)" "length s \<le> 300"
  shows "\<exists>v. cvsecs (Str s) = Inr v"
proof -
  from assms(1) have "findall expr_seps (amend s) \<noteq> []"
    by (simp add: findall_Nil_iff [OF seps_not_digit(1)])
  then obtain h m sec f rest where
    g: "findall expr_seps (amend s) = (h, m, sec, f) # rest"
    by (cases "findall expr_seps (amend s)") auto
  then have mem: "(h, m, sec, f) \<in> set (findall expr_seps (amend s))" by simp
  then have n: "number h" "number m" "number sec"
    by (auto dest: findall_numbers)
  from assms(2) have "length (amend s) \<le> 302"
    using length_amend [of s] by linarith
  with findall_lengths [OF mem]
  have "length h \<le> 302" "length m \<le> 302" "length sec \<le> 302" "length f \<le> 308"
    by linarith+
  from seconds_of_fits [OF n this] g show ?thesis
    by (simp add: cvsecs_groups)
qed

lemma cvsecs_timecode:
  assumes "number h" "number m" "number sec" "number f" "c \<in> set spec_seps"
  shows "cvsecs (Str (h @ '':'' @ m @ '':'' @ sec @ [c] @ f)) = seconds_of (h, m, sec, f)"
proof -
  let ?w = "h @ '':'' @ m @ '':'' @ sec @ [c] @ f"
  from assms(5) have a: "amend ?w = ?w" by (rule amend_sep) simp
  from assms(5) have c: "c \<in> set expr_seps" "\<not> is_digit c"
    using seps_not_digit(2) by (auto intro: spec_seps_subset)
  from match_at_timecode [OF assms(1-4) c, of "[]"]
  have "match_at expr_seps ?w = Some ((h, m, sec, f), [])" by simp
  then have "findall expr_seps ?w = [(h, m, sec, f)]"
    by (simp add: findall_match findall_Nil)
  with a show ?thesis by (simp add: cvsecs_groups)
qed

text \<open>
  On a string without a bar the class of the source and the class \<^verbatim>\<open>[.,]\<close> give the
  same matches, so cvsecs computes from the first match of the grammar as it is
  documented.
\<close>

lemma cvsecs_spec_grammar:
  assumes "CHR ''|'' \<notin> set s"
  shows "cvsecs (Str s) =
     (case findall spec_seps (amend s) of [] \<Rightarrow> Inl IndexError | g # _ \<Rightarrow> seconds_of g)"
  using findall_no_bar [OF amend_no_bar [OF assms]] by (simp add: cvsecs_groups)

text \<open>The examples of the docstring, and a string with no fraction.\<close>

lemma cvsecs_docstring:
  "cvsecs (Str ''01:01:33.5'') = Inr 3693.5"
  "cvsecs (Str ''01:01:33.045'') = Inr 3693.045"
  "cvsecs (Str ''01:01:33,5'') = Inr 3693.5"
  "cvsecs (Str ''01:01:33'') = Inr 3693"
  by (simp_all add: cvsecs_groups seconds_of_def fits_def findall.simps amend_def match_at_def
      digits1_def one_of_def is_digit_def expr_seps_def py_int_def py_float_def digit_val_def)

text \<open>Evaluations used below.\<close>

lemma abc_eval: "cvsecs (Str ''abc'') = Inl IndexError"
  by (simp add: cvsecs_groups findall.simps amend_def match_at_def digits1_def one_of_def
      is_digit_def expr_seps_def)

lemma abc_spec: "findall spec_seps (amend ''abc'') = []"
  by (simp add: findall.simps amend_def match_at_def digits1_def one_of_def is_digit_def spec_seps_def)

lemma bar_eval: "cvsecs (Str ''01:01:33|5'') = Inr 3693.5"
  by (simp add: cvsecs_groups seconds_of_def fits_def findall.simps amend_def match_at_def
      digits1_def one_of_def is_digit_def expr_seps_def py_int_def py_float_def digit_val_def)

lemma bar_spec: "findall spec_seps (amend ''01:01:33|5'') = []"
  by (simp add: findall.simps amend_def match_at_def digits1_def one_of_def is_digit_def spec_seps_def)

lemma tc_spec_eval: "findall spec_seps (amend ''01:01:33.5'') \<noteq> []"
  by (simp add: findall.simps amend_def match_at_def digits1_def one_of_def is_digit_def spec_seps_def)

lemma tc_eval: "cvsecs (Str ''01:01:33.5'') = Inr 3693.5"
  by (rule cvsecs_docstring)

text \<open>
  Claim C1, as amended. For a string without a bar, cvsecs raises IndexError (from
  indexing the empty list of matches) exactly when the string, after \<^verbatim>\<open>.0\<close> is
  appended to one with neither dot nor comma, contains no timecode of the grammar
  \<^verbatim>\<open>(\d+):(\d+):(\d+)[.,](\d+)\<close>; it then returns no value.
\<close>

theorem cvsecs_no_match:
  assumes "CHR ''|'' \<notin> set s"
  shows "cvsecs (Str s) = Inl IndexError \<longleftrightarrow> \<not> contains_timecode spec_seps (amend s)"
proof -
  from assms have "findall expr_seps (amend s) = findall spec_seps (amend s)"
    by (intro findall_no_bar amend_no_bar)
  then show ?thesis
    by (simp only: cvsecs_IndexError_iff findall_Nil_iff [OF seps_not_digit(2)])
qed

theorem cvsecs_no_match_witness:
  "CHR ''|'' \<notin> set ''abc'' \<and> \<not> contains_timecode spec_seps (amend ''abc'')
   \<and> cvsecs (Str ''abc'') = Inl IndexError"
  using cvsecs_no_match [of "''abc''"] abc_eval by simp

text \<open>
  The claim as it was stated fails twice: on \<^verbatim>\<open>'abc'\<close> the error is IndexError and no
  other, and \<^verbatim>\<open>'01:01:33|5'\<close>, which has no timecode of the grammar, is accepted with
  the bar as separator.
\<close>

theorem cvsecs_no_match_counterexample:
  "\<not> contains_timecode spec_seps (amend ''abc'')
   \<and> cvsecs (Str ''abc'') = Inl IndexError
   \<and> \<not> contains_timecode spec_seps (amend ''01:01:33|5'')
   \<and> cvsecs (Str ''01:01:33|5'') = Inr 3693.5"
  using abc_spec bar_spec abc_eval bar_eval
  by (simp only: findall_Nil_iff [OF seps_not_digit(2)] simp_thms)

text \<open>
  Claim C2. A string that matches the grammar with separator dot or comma should give
  \<open>3600*H + 60*M + S + F/10^len(F)\<close> from the first such match. The string
  \<^verbatim>\<open>'1:2:3|4 5:6:7.8'\<close> has the single match \<^verbatim>\<open>5:6:7.8\<close> of that grammar, worth 18367.8,
  and cvsecs returns 3723.4, computed from \<^verbatim>\<open>1:2:3|4\<close>.
\<close>

theorem cvsecs_first_match_bar:
  "cvsecs (Str ''1:2:3|4 5:6:7.8'') = Inr 3723.4
   \<and> findall spec_seps (amend ''1:2:3|4 5:6:7.8'') = [(''5'', ''6'', ''7'', ''8'')]
   \<and> (3600 * 5 + 60 * 6 + 7 + 8 / 10 ^ length ''8'' :: real) = 18367.8"
  by (simp add: cvsecs_groups seconds_of_def fits_def findall.simps amend_def match_at_def
      digits1_def one_of_def is_digit_def expr_seps_def spec_seps_def py_int_def py_float_def
      digit_val_def)

text \<open>
  Claim C8. The parse is not anchored: \<^verbatim>\<open>'xx01:02:03.5yy'\<close> gives 3723.5. The result
  is not always computed from the first match of the grammar with separator dot or
  comma: in \<^verbatim>\<open>'xx1:2:3|4yy05:06:07.5zz'\<close> that match is \<^verbatim>\<open>05:06:07.5\<close>, worth 18367.5,
  and cvsecs returns 3723.4.
\<close>

theorem cvsecs_unanchored_bar:
  "cvsecs (Str ''xx1:2:3|4yy05:06:07.5zz'') = Inr 3723.4
   \<and> findall spec_seps (amend ''xx1:2:3|4yy05:06:07.5zz'') = [(''05'', ''06'', ''07'', ''5'')]
   \<and> cvsecs (Str ''xx01:02:03.5yy'') = Inr 3723.5"
  by (simp add: cvsecs_groups seconds_of_def fits_def findall.simps amend_def match_at_def
      digits1_def one_of_def is_digit_def expr_seps_def spec_seps_def py_int_def py_float_def
      digit_val_def)

text \<open>
  Claim C9, as amended. No range is checked on the fields of a timecode: whatever numbers
  the four fields are, minutes and seconds of 60 or more included, the string is accepted
  and the fields are summed with their weights, as long as hours, minutes and seconds
  have at most 300 digits each and the fraction at most 308; \<^verbatim>\<open>'00:99:99.0'\<close> gives
  6039.
\<close>

theorem cvsecs_no_range_check:
  assumes "number h" "number m" "number sec" "number f" "c \<in> set spec_seps"
    and "length h \<le> 300" "length m \<le> 300" "length sec \<le> 300" "length f \<le> 308"
  shows "cvsecs (Str (h @ '':'' @ m @ '':'' @ sec @ [c] @ f))
         = Inr (of_int (3600 * py_int h + 60 * py_int m + py_int sec)
                + py_float f / of_int (10 ^ length f))"
proof -
  from assms(6-8) have "length h \<le> 302" "length m \<le> 302" "length sec \<le> 302"
    by simp_all
  from seconds_of_fits [OF assms(1-3) this assms(9)] cvsecs_timecode [OF assms(1-5)]
  show ?thesis by simp
qed

theorem cvsecs_no_range_check_witness:
  "number ''00'' \<and> number ''99'' \<and> number ''0'' \<and> CHR ''.'' \<in> set spec_seps
   \<and> length ''00'' \<le> 300 \<and> length ''99'' \<le> 300 \<and> length ''0'' \<le> 308
   \<and> 60 \<le> py_int ''99'' \<and> cvsecs (Str ''00:99:99.0'') = Inr 6039"
  using cvsecs_no_range_check [of "''00''" "''99''" "''99''" "''0''" "CHR ''.''"]
  by (simp add: number_def is_digit_def spec_seps_def py_int_def py_float_def digit_val_def)

text \<open>
  A field that is too long is not accepted: with a minute field of 400 digits the sum
  of the int terms does not convert to a float, and with a fraction of 309 digits
  \<^verbatim>\<open>10**len(F)\<close> does not; both raise OverflowError.
\<close>

theorem cvsecs_no_range_check_counterexample:
  "cvsecs (Str (''0:1'' @ replicate 399 (CHR ''0'') @ '':0.0'')) = Inl OverflowError
   \<and> cvsecs (Str (''0:0:0.'' @ replicate 309 (CHR ''0''))) = Inl OverflowError"
proof
  have d: "is_digit (CHR ''0'')" "number ''0''" "number ''1''" "CHR ''.'' \<in> set spec_seps"
    by (simp_all add: is_digit_def number_def spec_seps_def)
  have m: "number (''1'' @ replicate 399 (CHR ''0''))"
    by (intro number_append d)
  have "py_int (''1'' @ replicate 399 (CHR ''0'')) = 10 ^ 399"
    unfolding py_int_zeros by (simp add: py_int_def digit_val_def)
  moreover have "py_int ''0'' = 0" by (simp add: py_int_def digit_val_def)
  moreover have "\<not> fits (3600 * 0 + 60 * 10 ^ 399 + 0)" by (simp add: fits_def)
  ultimately have "seconds_of (''0'', ''1'' @ replicate 399 (CHR ''0''), ''0'', ''0'')
      = Inl OverflowError"
    by (simp add: seconds_of_def)
  with cvsecs_timecode [OF d(2) m d(2) d(2) d(4)]
  show "cvsecs (Str (''0:1'' @ replicate 399 (CHR ''0'') @ '':0.0'')) = Inl OverflowError"
    by simp
next
  have d: "is_digit (CHR ''0'')" "number ''0''" "CHR ''.'' \<in> set spec_seps"
    by (simp_all add: is_digit_def number_def spec_seps_def)
  have f: "number (replicate 309 (CHR ''0''))"
    using d(1) by (simp add: number_def list_all_iff)
  have "\<not> fits (10 ^ length (replicate 309 (CHR ''0'')))"
    by (intro not_fits_pow) simp
  then have "seconds_of (''0'', ''0'', ''0'', replicate 309 (CHR ''0'')) = Inl OverflowError"
    by (simp add: seconds_of_def del: length_replicate)
  with cvsecs_timecode [OF d(2) d(2) d(2) f d(3)]
  show "cvsecs (Str (''0:0:0.'' @ replicate 309 (CHR ''0''))) = Inl OverflowError"
    by simp
qed

section \<open>cvsecs on tuples and numbers\<close>

lemma hms_small:
  assumes "small h" "small m" "small s"
  shows "hms h m s = Inr (3600 * val h + 60 * val m + val s)"
  using assms
  by (cases h; cases m; cases s)
    (simp_all add: hms_def float_of_int_fits fits_small fits_consts)

lemma hms_ints: "hms (PyInt a) (PyInt b) (PyInt c) = Inr (of_int (3600 * a + 60 * b + c))"
  by (simp add: hms_def)

text \<open>
  Claim C4, as amended. On a 2-tuple \<open>(m, s)\<close> cvsecs returns \<open>60*m + s\<close>, and on a
  3-tuple \<open>(h, m, s)\<close> it returns \<open>3600*h + 60*m + s\<close>, when every component that is an
  int has at most 300 digits, and also when all components are ints, of any size.
\<close>

theorem cvsecs_tuple:
  "(small m \<and> small s \<longrightarrow> cvsecs (Tuple [m, s]) = Inr (60 * val m + val s))
   \<and> (small h \<and> small m \<and> small s
        \<longrightarrow> cvsecs (Tuple [h, m, s]) = Inr (3600 * val h + 60 * val m + val s))
   \<and> cvsecs (Tuple [PyInt a, PyInt b]) = Inr (of_int (60 * a + b))
   \<and> cvsecs (Tuple [PyInt c, PyInt a, PyInt b]) = Inr (of_int (3600 * c + 60 * a + b))"
  using hms_small [of "PyInt 0" m s] hms_small [of h m s]
  by (simp add: hms_ints small_int)

theorem cvsecs_tuple_witness:
  "small (PyInt 1) \<and> small (PyFloat 21.5) \<and> small (PyInt 2)
   \<and> cvsecs (Tuple [PyInt 1, PyFloat 21.5]) = Inr 81.5
   \<and> cvsecs (Tuple [PyInt 1, PyInt 1, PyInt 2]) = Inr 3662"
  using cvsecs_tuple [where m = "PyInt 1" and s = "PyFloat 21.5" and h = "PyInt 1"]
    cvsecs_tuple [where m = "PyInt 1" and s = "PyInt 2" and h = "PyInt 1"]
  by (simp add: small_int)

text \<open>
  On \<^verbatim>\<open>(10**400, 0.5)\<close> the int \<^verbatim>\<open>60 * 10**400\<close> meets the float 0.5 and does not
  convert: cvsecs raises OverflowError and returns nothing.
\<close>

theorem cvsecs_tuple_counterexample:
  "cvsecs (Tuple [PyInt (10 ^ 400), PyFloat 0.5]) = Inl OverflowError"
  by (simp add: hms_def float_of_int_def fits_def)

text \<open>
  Claim C7. An argument that is neither a string nor a tuple is a number, and cvsecs
  returns it unchanged.
\<close>

theorem cvsecs_identity:
  assumes "\<not> is_string t" and "\<not> is_tuple t"
  shows "\<exists>x. t = Num x \<and> cvsecs t = Inr x"
  using assms by (cases t) simp_all

theorem cvsecs_identity_witness:
  "\<not> is_string (Num 15.4) \<and> \<not> is_tuple (Num 15.4) \<and> cvsecs (Num 15.4) = Inr 15.4"
  using cvsecs_identity [of "Num 15.4"] by simp

text \<open>
  Claim C6, as amended. A value that cvsecs returns on a string is never negative, and
  on a string of at most 300 characters that contains a timecode of the grammar it does
  return one. On a 2-tuple or a 3-tuple whose components are not negative, the ints
  among them of at most 300 digits, cvsecs returns a value that is not negative.
\<close>

theorem cvsecs_nonneg:
  "(cvsecs (Str s) = Inr v \<longrightarrow> 0 \<le> v)
   \<and> (contains_timecode spec_seps (amend s) \<and> length s \<le> 300
        \<longrightarrow> (\<exists>v. cvsecs (Str s) = Inr v \<and> 0 \<le> v))
   \<and> (small m \<and> small sec \<and> 0 \<le> val m \<and> 0 \<le> val sec
        \<longrightarrow> (\<exists>v. cvsecs (Tuple [m, sec]) = Inr v \<and> 0 \<le> v))
   \<and> (small h \<and> small m \<and> small sec \<and> 0 \<le> val h \<and> 0 \<le> val m \<and> 0 \<le> val sec
        \<longrightarrow> (\<exists>v. cvsecs (Tuple [h, m, sec]) = Inr v \<and> 0 \<le> v))"
proof (intro conjI impI)
  assume "cvsecs (Str s) = Inr v"
  then show "0 \<le> v" by (rule cvsecs_value_nonneg)
next
  assume "contains_timecode spec_seps (amend s) \<and> length s \<le> 300"
  then obtain v where "cvsecs (Str s) = Inr v"
    using cvsecs_returns contains_spec_expr by blast
  then show "\<exists>v. cvsecs (Str s) = Inr v \<and> 0 \<le> v"
    using cvsecs_value_nonneg by blast
next
  assume a: "small m \<and> small sec \<and> 0 \<le> val m \<and> 0 \<le> val sec"
  then have "hms (PyInt 0) m sec = Inr (3600 * val (PyInt 0) + 60 * val m + val sec)"
    by (intro hms_small) (simp_all add: small_int)
  with a show "\<exists>v. cvsecs (Tuple [m, sec]) = Inr v \<and> 0 \<le> v" by simp
next
  assume a: "small h \<and> small m \<and> small sec \<and> 0 \<le> val h \<and> 0 \<le> val m \<and> 0 \<le> val sec"
  then have "hms h m sec = Inr (3600 * val h + 60 * val m + val sec)"
    by (intro hms_small) simp_all
  with a show "\<exists>v. cvsecs (Tuple [h, m, sec]) = Inr v \<and> 0 \<le> v" by simp
qed

theorem cvsecs_nonneg_witness:
  "contains_timecode spec_seps (amend ''01:01:33.5'') \<and> length ''01:01:33.5'' \<le> 300
   \<and> cvsecs (Str ''01:01:33.5'') = Inr 3693.5 \<and> (0::real) \<le> 3693.5
   \<and> small (PyInt 1) \<and> small (PyFloat 21.5) \<and> 0 \<le> val (PyInt 1) \<and> 0 \<le> val (PyFloat 21.5)
   \<and> cvsecs (Tuple [PyInt 1, PyFloat 21.5]) = Inr 81.5 \<and> (0::real) \<le> 81.5
   \<and> cvsecs (Tuple [PyInt 1, PyInt 1, PyFloat 21.5]) = Inr 3681.5 \<and> (0::real) \<le> 3681.5"
proof -
  have c: "contains_timecode spec_seps (amend ''01:01:33.5'')"
    using tc_spec_eval by (simp add: findall_Nil_iff [OF seps_not_digit(2)])
  have sm: "small (PyInt 1)" "small (PyFloat 21.5)" by (simp_all add: small_int)
  from cvsecs_nonneg [where s = "''01:01:33.5''" and v = "3693.5" and m = "PyInt 1"
      and sec = "PyFloat 21.5" and h = "PyInt 1"] tc_eval
  have "(0::real) \<le> 3693.5" by blast
  moreover have "cvsecs (Tuple [PyInt 1, PyFloat 21.5]) = Inr 81.5"
    "cvsecs (Tuple [PyInt 1, PyInt 1, PyFloat 21.5]) = Inr 3681.5"
    using hms_small [of "PyInt 0" "PyInt 1" "PyFloat 21.5"]
      hms_small [of "PyInt 1" "PyInt 1" "PyFloat 21.5"] sm
    by (simp_all add: small_int)
  ultimately show ?thesis using c sm tc_eval by simp
qed

text \<open>A tuple with a negative component gives a negative value.\<close>

theorem cvsecs_nonneg_counterexample:
  "cvsecs (Tuple [PyInt (- 1), PyInt 0]) = Inr (- 60) \<and> (- 60 :: real) < 0"
  by (simp add: hms_ints)

section \<open>The outcome of subprocess_call\<close>

text \<open>
  The exception of a failed launch leaves the call; after a launch the call returns on
  return code 0, and on another return code it raises what the decoding raises, or
  IOError with the decoded text.
\<close>

lemma subprocess_call_result:
  "snd (subprocess_call os_name Popen cmd verbose errorprint) =
     (case Popen cmd (popen_params_of os_name) of
        Inl e \<Rightarrow> Inl e
      | Inr proc \<Rightarrow>
          if returncode proc \<noteq> 0
          then (case decode_utf8 (err proc) of Inl e \<Rightarrow> Inl e | Inr txt \<Rightarrow> Inl (IOError txt))
          else Inr ())"
  by (simp add: subprocess_call_def Let_def split: sum.splits)

lemma boom_decode: "decode_utf8 ''boom'' = Inr [98, 111, 111, 109]"
  by (simp add: decode_utf8_def)

lemma subprocess_call_examples:
  "snd (subprocess_call ''posix'' (ends_with \<lparr>returncode = 0, err = ''boom''\<rparr>)
          [''ffmpeg'', ''boom''] True True) = Inr ()"
  "snd (subprocess_call ''posix'' (ends_with \<lparr>returncode = 1, err = ''boom''\<rparr>)
          [''ffmpeg'', ''boom''] True True) = Inl (IOError [98, 111, 111, 109])"
  by (simp_all add: subprocess_call_result boom_decode)

text \<open>
  Claim C3. The call should raise IOError, carrying the text of the child's standard
  error, whenever the child ends with a return code other than 0. A child that ends
  with return code 1 after writing the single byte \<^verbatim>\<open>FF\<close> gets UnicodeDecodeError
  instead: \<^verbatim>\<open>err.decode('utf8')\<close> raises before IOError is made.
\<close>

theorem subprocess_call_undecodable:
  "snd (subprocess_call ''posix'' (ends_with \<lparr>returncode = 1, err = [CHR 0xFF]\<rparr>)
          [''ffmpeg''] True True) = Inl UnicodeDecodeError"
  by (simp add: subprocess_call_result decode_utf8_def)

section \<open>The lookup in the registry\<close>

lemma extensions_dict_eq:
  "extensions_dict =
       [(''mp4'',  \<lparr>type = ''video'', codec = Some [''libx264'', ''libmpeg4'']\<rparr>),
        (''ogv'',  \<lparr>type = ''video'', codec = Some [''libtheora'']\<rparr>),
        (''webm'', \<lparr>type = ''video'', codec = Some [''libvpx'']\<rparr>),
        (''avi'',  \<lparr>type = ''video'', codec = None\<rparr>),
        (''mov'',  \<lparr>type = ''video'', codec = None\<rparr>),
        (''ogg'',  \<lparr>type = ''audio'', codec = Some [''libvorbis'']\<rparr>),
        (''mp3'',  \<lparr>type = ''audio'', codec = Some [''libmp3lame'']\<rparr>),
        (''wav'',  \<lparr>type = ''audio'', codec = Some [''pcm_s16le'', ''pcm_s32le'']\<rparr>),
        (''m4a'',  \<lparr>type = ''audio'', codec = Some [''libfdk_aac'']\<rparr>),
        (''jpg'',  \<lparr>type = ''image'', codec = None\<rparr>),
        (''jpeg'',  \<lparr>type = ''image'', codec = None\<rparr>),
        (''png'',  \<lparr>type = ''image'', codec = None\<rparr>),
        (''bmp'',  \<lparr>type = ''image'', codec = None\<rparr>),
        (''tiff'',  \<lparr>type = ''image'', codec = None\<rparr>)]"
  by (simp add: extensions_dict_def)

lemma find_Inr_iff:
  "find_extension_in d c = Inr e \<longleftrightarrow>
     (\<exists>pre i post. d = pre @ (e, i) # post \<and> has_codec i c
        \<and> (\<forall>x\<in>set pre. \<not> has_codec (snd x) c))"
proof (induction d)
  case Nil
  then show ?case by simp
next
  case (Cons x d)
  obtain e' i' where x: "x = (e', i')" by (cases x)
  show ?case
  proof (cases "has_codec i' c")
    case True
    have "(\<exists>pre i post. (e', i') # d = pre @ (e, i) # post \<and> has_codec i c
        \<and> (\<forall>x\<in>set pre. \<not> has_codec (snd x) c)) \<longleftrightarrow> e' = e"
    proof
      assume "\<exists>pre i post. (e', i') # d = pre @ (e, i) # post \<and> has_codec i c
        \<and> (\<forall>x\<in>set pre. \<not> has_codec (snd x) c)"
      then obtain pre i post where p: "(e', i') # d = pre @ (e, i) # post"
        and n: "\<forall>x\<in>set pre. \<not> has_codec (snd x) c" by blast
      show "e' = e"
      proof (cases pre)
        case Nil
        with p show ?thesis by simp
      next
        case (Cons y ys)
        with p have "y = (e', i')" by simp
        with Cons n True show ?thesis by simp
      qed
    next
      assume "e' = e"
      with True have "(e', i') # d = [] @ (e, i') # d \<and> has_codec i' c
         \<and> (\<forall>x\<in>set []. \<not> has_codec (snd x) c)" by simp
      then show "\<exists>pre i post. (e', i') # d = pre @ (e, i) # post \<and> has_codec i c
        \<and> (\<forall>x\<in>set pre. \<not> has_codec (snd x) c)" by blast
    qed
    with True x show ?thesis by auto
  next
    case False
    have "(\<exists>pre i post. (e', i') # d = pre @ (e, i) # post \<and> has_codec i c
        \<and> (\<forall>x\<in>set pre. \<not> has_codec (snd x) c)) \<longleftrightarrow>
        (\<exists>pre i post. d = pre @ (e, i) # post \<and> has_codec i c
        \<and> (\<forall>x\<in>set pre. \<not> has_codec (snd x) c))" (is "?L \<longleftrightarrow> ?R")
    proof
      assume ?L
      then obtain pre i post where p: "(e', i') # d = pre @ (e, i) # post"
        and h: "has_codec i c"
        and n: "\<forall>x\<in>set pre. \<not> has_codec (snd x) c" by blast
      show ?R
      proof (cases pre)
        case Nil
        with p h False show ?thesis by simp
      next
        case (Cons y ys)
        with p n h have "d = ys @ (e, i) # post \<and> has_codec i c
          \<and> (\<forall>x\<in>set ys. \<not> has_codec (snd x) c)" by simp
        then show ?thesis by blast
      qed
    next
      assume ?R
      then obtain pre i post where "d = pre @ (e, i) # post" "has_codec i c"
        "\<forall>x\<in>set pre. \<not> has_codec (snd x) c" by blast
      with False have "(e', i') # d = ((e', i') # pre) @ (e, i) # post \<and> has_codec i c
        \<and> (\<forall>x\<in>set ((e', i') # pre). \<not> has_codec (snd x) c)" by simp
      then show ?L by blast
    qed
    with False x Cons.IH show ?thesis by simp
  qed
qed

lemma find_Inl_iff:
  "find_extension_in d c = Inl ex \<longleftrightarrow>
     ex = ValueError \<and> (\<forall>x\<in>set d. \<not> has_codec (snd x) c)"
  by (induction d) (auto split: if_splits)

lemma find_Inr_mem:
  "find_extension_in d c = Inr e \<Longrightarrow> \<exists>i. (e, i) \<in> set d \<and> has_codec i c"
  by (induction d) (auto split: if_splits)

lemma has_codec_codecs_of: "has_codec i c \<longleftrightarrow> c \<in> set (codecs_of (e, i))"
  by (simp add: has_codec_def codecs_of_def split: option.splits)

lemma distinct_concat_unique:
  "distinct (concat (map f d)) \<Longrightarrow> x \<in> set d \<Longrightarrow> y \<in> set d
     \<Longrightarrow> c \<in> set (f x) \<Longrightarrow> c \<in> set (f y) \<Longrightarrow> x = y"
  by (induction d) auto

lemma registry_codecs:
  "concat (map codecs_of extensions_dict) =
     [''libx264'', ''libmpeg4'', ''libtheora'', ''libvpx'', ''libvorbis'', ''libmp3lame'',
      ''pcm_s16le'', ''pcm_s32le'', ''libfdk_aac'']"
  by (simp add: extensions_dict_eq codecs_of_def)

lemma registry_distinct: "distinct (concat (map codecs_of extensions_dict))"
  unfolding registry_codecs by simp

lemma registry_unique:
  assumes "(e, i) \<in> set extensions_dict" "(e', i') \<in> set extensions_dict"
    "has_codec i c" "has_codec i' c"
  shows "(e, i) = (e', i')"
  using distinct_concat_unique [OF registry_distinct assms(1,2), of c] assms(3,4)
  by (simp add: has_codec_codecs_of [symmetric])

lemma libx264_eval: "find_extension ''libx264'' = Inr ''mp4''"
  by (simp add: find_extension_def extensions_dict_eq has_codec_def)

lemma no_such_codec_eval: "find_extension ''no-such-codec'' = Inl ValueError"
  by (simp add: find_extension_def extensions_dict_eq has_codec_def)

text \<open>
  Claim C5. find_extension returns the extension of the first item of the registry, in
  iteration order, whose codec list has the codec; so \<^verbatim>\<open>find_extension('libx264')\<close> is
  \<^verbatim>\<open>'mp4'\<close>. For a codec that no item lists it raises ValueError, the error the
  specification calls UnknownCodec; \<^verbatim>\<open>'no-such-codec'\<close> is one.
\<close>

theorem find_extension_first:
  "(find_extension c = Inr e \<longleftrightarrow>
      (\<exists>pre i post. extensions_dict = pre @ (e, i) # post \<and> has_codec i c
         \<and> (\<forall>x\<in>set pre. \<not> has_codec (snd x) c)))
   \<and> ((\<forall>x\<in>set extensions_dict. \<not> has_codec (snd x) c)
        \<longrightarrow> find_extension c = Inl ValueError)
   \<and> find_extension ''libx264'' = Inr ''mp4''
   \<and> find_extension ''no-such-codec'' = Inl ValueError"
  using find_Inr_iff [of extensions_dict c e] find_Inl_iff [of extensions_dict c ValueError]
    libx264_eval no_such_codec_eval
  by (simp only: find_extension_def simp_thms)

theorem find_extension_first_witness:
  "list_all (\<lambda>x. \<not> has_codec (snd x) ''no-such-codec'') extensions_dict
   \<and> find_extension ''no-such-codec'' = Inl ValueError
   \<and> find_extension ''libx264'' = Inr ''mp4''
   \<and> (\<exists>pre i post. extensions_dict = pre @ (''mp4'', i) # post \<and> has_codec i ''libx264''
         \<and> list_all (\<lambda>x. \<not> has_codec (snd x) ''libx264'') pre)"
proof -
  have none: "list_all (\<lambda>x. \<not> has_codec (snd x) ''no-such-codec'') extensions_dict"
    by (simp add: extensions_dict_eq has_codec_def)
  then have "\<forall>x\<in>set extensions_dict. \<not> has_codec (snd x) ''no-such-codec''"
    by (simp only: list_all_iff)
  with find_extension_first [of "''no-such-codec''" "''mp4''"]
  have a: "find_extension ''no-such-codec'' = Inl ValueError" by blast
  from find_extension_first [of "''libx264''" "''mp4''"]
  have b: "find_extension ''libx264'' = Inr ''mp4''"
    and "\<exists>pre i post. extensions_dict = pre @ (''mp4'', i) # post \<and> has_codec i ''libx264''
         \<and> (\<forall>x\<in>set pre. \<not> has_codec (snd x) ''libx264'')"
    by blast+
  then have c: "\<exists>pre i post. extensions_dict = pre @ (''mp4'', i) # post
         \<and> has_codec i ''libx264'' \<and> list_all (\<lambda>x. \<not> has_codec (snd x) ''libx264'') pre"
    by (simp only: list_all_iff)
  from none a b c show ?thesis by (intro conjI)
qed

text \<open>
  Claim C10. In the registry as shipped no codec is listed by two items, so for every
  codec the loop of find_extension gives the same result, or the same error, in any two
  orders of the items.
\<close>

theorem find_extension_order:
  assumes "mset d1 = mset extensions_dict" and "mset d2 = mset extensions_dict"
  shows "(\<forall>x\<in>set extensions_dict. \<forall>y\<in>set extensions_dict.
            has_codec (snd x) c \<and> has_codec (snd y) c \<longrightarrow> x = y)
         \<and> find_extension_in d1 c = find_extension_in d2 c"
proof
  show "\<forall>x\<in>set extensions_dict. \<forall>y\<in>set extensions_dict.
            has_codec (snd x) c \<and> has_codec (snd y) c \<longrightarrow> x = y"
    using registry_unique by (metis prod.collapse)
next
  from assms have s1: "set d1 = set extensions_dict" and s2: "set d2 = set extensions_dict"
    by (auto dest: mset_eq_setD)
  show "find_extension_in d1 c = find_extension_in d2 c"
  proof (cases "find_extension_in d1 c")
    case (Inl ex)
    then have "ex = ValueError" "\<forall>x\<in>set d2. \<not> has_codec (snd x) c"
      using find_Inl_iff [of d1 c ex] s1 s2 by simp_all
    then have "find_extension_in d2 c = Inl ex"
      using find_Inl_iff [of d2 c ex] by simp
    with Inl show ?thesis by simp
  next
    case (Inr e)
    then obtain i where i: "(e, i) \<in> set extensions_dict" "has_codec i c"
      using find_Inr_mem s1 by blast
    show ?thesis
    proof (cases "find_extension_in d2 c")
      case (Inl ex)
      then have "\<forall>x\<in>set d2. \<not> has_codec (snd x) c"
        using find_Inl_iff [of d2 c ex] by simp
      with i s2 show ?thesis by fastforce
    next
      case e': (Inr e')
      then obtain i' where "(e', i') \<in> set extensions_dict" "has_codec i' c"
        using find_Inr_mem s2 by blast
      with i have "e = e'" using registry_unique by blast
      with Inr e' show ?thesis by simp
    qed
  qed
qed

theorem find_extension_order_witness:
  "mset (rev extensions_dict) = mset extensions_dict
   \<and> find_extension_in (rev extensions_dict) ''libx264'' = Inr ''mp4''
   \<and> find_extension_in extensions_dict ''libx264'' = Inr ''mp4''"
proof -
  have m: "mset (rev extensions_dict) = mset extensions_dict" by simp
  from find_extension_order [OF m refl, of "''libx264''"]
  have "find_extension_in (rev extensions_dict) ''libx264''
        = find_extension_in extensions_dict ''libx264''" by (rule conjunct2)
  with libx264_eval m show ?thesis by (simp only: find_extension_def simp_thms)
qed

end
